theory Spec2Isabelle
  imports Complex_Main "HOL-Library.Multiset"
begin

section \<open>Intelligent Grid Resource and QoS Management Simulator (app.py)\<close>

text \<open>
  The simulator generates a pool of grid nodes and a list of tasks, schedules the tasks
  onto the nodes with one of four strategies, evaluates every assignment and aggregates
  the evaluation records.

  Modelling conventions.
  \<^item> The dicts built by \<open>create_nodes\<close> and \<open>create_tasks\<close> have fixed keys and are records.
    Both dicts use the key \<open>"id"\<close>; the record fields are \<open>node_id\<close> and \<open>task_id\<close>.
  \<^item> Python \<open>int\<close> is \<open>int\<close>. Python \<open>float\<close> is modelled by the exact rational number
    (\<open>rat\<close>): \<open>/\<close> is exact division and \<open>round(x, n)\<close> rounds the exact value half-to-even
    at \<open>n\<close> decimals. Binary floating-point rounding error is outside the model.
  \<^item> The global \<open>random\<close> module is an explicit random source threaded through every
    function that draws from it.
  \<^item> Exceptions are values of type \<open>py_error\<close>, returned as \<open>Inl\<close>.
  \<^item> The node dicts are mutated in place and shared between \<open>nodes\<close> and its sorted
    copies. The node list is the store; a sorted copy is the list of positions in the
    store, and every mutation is an update of the store that the function returns. The
    entries of a node list are distinct objects, as \<open>create_nodes\<close> builds them.
\<close>

subsection \<open>Errors\<close>

datatype py_error = ZeroDivisionError | IndexError | StopIteration

subsection \<open>Random source\<close>

text \<open>
  A random source is the infinite sequence of raw draws still to come. The library
  functions are modelled by their documented contracts: \<open>randint(a, b)\<close> returns an
  integer \<open>N\<close> with \<open>a \<le> N \<le> b\<close>, \<open>choice(xs)\<close> an element of the non-empty sequence
  \<open>xs\<close>, and \<open>uniform(a, b)\<close> the value \<open>a + (b - a) * u\<close> for some \<open>u\<close> between 0 and 1
  (every rational \<open>u\<close> in that interval is produced by some source). All call sites pass
  literal arguments with \<open>a \<le> b\<close> and a non-empty \<open>xs\<close>.
\<close>

type_synonym rng = "nat \<Rightarrow> nat"

definition advance :: "nat \<Rightarrow> rng \<Rightarrow> rng" where
  "advance k g = (\<lambda>i. g (i + k))"

definition randint :: "int \<Rightarrow> int \<Rightarrow> rng \<Rightarrow> int \<times> rng" where
  "randint a b g = (a + int (g 0 mod nat (b - a + 1)), advance 1 g)"

definition choice :: "'a list \<Rightarrow> rng \<Rightarrow> 'a \<times> rng" where
  "choice xs g = (xs ! (g 0 mod length xs), advance 1 g)"

definition unit_draw :: "rng \<Rightarrow> rat" where
  "unit_draw g = of_nat (g 0 mod (g 1 + 2)) / of_nat (g 1 + 1)"

definition uniform :: "rat \<Rightarrow> rat \<Rightarrow> rng \<Rightarrow> rat \<times> rng" where
  "uniform a b g = (a + (b - a) * unit_draw g, advance 2 g)"

subsection \<open>Built-ins: \<open>round\<close>, \<open>str\<close>, true division\<close>

definition round_half_even :: "rat \<Rightarrow> int" where
  "round_half_even y =
     (let f = \<lfloor>y\<rfloor>; d = y - of_int f
      in if d < 1 / 2 then f
         else if 1 / 2 < d then f + 1
         else if even f then f else f + 1)"

definition py_round :: "rat \<Rightarrow> nat \<Rightarrow> rat" where
  "py_round x nd = of_int (round_half_even (x * 10 ^ nd)) / 10 ^ nd"


definition digit_char :: "nat \<Rightarrow> char" where
  "digit_char d = ''0123456789'' ! d"

fun str_nat :: "nat \<Rightarrow> string" where
  "str_nat n = (if n < 10 then [digit_char n] else str_nat (n div 10) @ [digit_char (n mod 10)])"

declare str_nat.simps [simp del]

definition digit_val :: "char \<Rightarrow> nat" where
  "digit_val c = of_char c - 48"

definition nat_of_str :: "string \<Rightarrow> nat" where
  "nat_of_str s = foldl (\<lambda>a c. 10 * a + digit_val c) 0 s"

subsection \<open>Data model\<close>

record node =
  node_id :: string
  CPU :: int
  Memory :: int
  Bandwidth :: int
  Reliability :: rat
  Cost :: rat
  Load :: int

record task =
  task_id :: string
  Workload :: int
  Priority :: string
  SLA_Time :: int

type_synonym assignment = "string \<times> string"

subsection \<open>Grid setup: \<open>create_nodes\<close>, \<open>create_tasks\<close>\<close>

text \<open>
  The list comprehension over \<open>range(n)\<close> evaluates the dict display once per index
  \<open>i = 0, ..., n - 1\<close>, drawing the random fields in the order they are written.
  \<open>range(n)\<close> is empty for \<open>n \<le> 0\<close>.
\<close>

definition make_node :: "nat \<Rightarrow> rng \<Rightarrow> node \<times> rng" where
  "make_node i g =
     (let (cpu, g1) = randint 2 10 g;
          (mem, g2) = randint 8 32 g1;
          (bw, g3) = randint 50 150 g2;
          (rel, g4) = uniform (85 / 100) (99 / 100) g3;
          (cost, g5) = uniform (1 / 2) 3 g4
      in (\<lparr>node_id = ''Node-'' @ str_nat (i + 1), CPU = cpu, Memory = mem, Bandwidth = bw,
           Reliability = py_round rel 2, Cost = py_round cost 2, Load = 0\<rparr>, g5))"

fun create_nodes_from :: "nat \<Rightarrow> nat \<Rightarrow> rng \<Rightarrow> node list \<times> rng" where
  "create_nodes_from i 0 g = ([], g)"
| "create_nodes_from i (Suc k) g =
     (let (nd, g1) = make_node i g;
          (rest, g2) = create_nodes_from (Suc i) k g1
      in (nd # rest, g2))"

definition create_nodes :: "int \<Rightarrow> rng \<Rightarrow> node list \<times> rng" where
  "create_nodes n g = create_nodes_from 0 (nat n) g"

definition make_task :: "nat \<Rightarrow> rng \<Rightarrow> task \<times> rng" where
  "make_task i g =
     (let (w, g1) = randint 3 10 g;
          (p, g2) = choice [''Low'', ''Medium'', ''High''] g1;
          (s, g3) = randint 3 9 g2
      in (\<lparr>task_id = ''Task-'' @ str_nat (i + 1), Workload = w, Priority = p, SLA_Time = s\<rparr>, g3))"

fun create_tasks_from :: "nat \<Rightarrow> nat \<Rightarrow> rng \<Rightarrow> task list \<times> rng" where
  "create_tasks_from i 0 g = ([], g)"
| "create_tasks_from i (Suc k) g =
     (let (t, g1) = make_task i g;
          (rest, g2) = create_tasks_from (Suc i) k g1
      in (t # rest, g2))"

definition create_tasks :: "int \<Rightarrow> rng \<Rightarrow> task list \<times> rng" where
  "create_tasks n g = create_tasks_from 0 (nat n) g"

subsection \<open>Scheduling algorithms\<close>

text \<open>
  \<open>node["Load"] += task["Workload"]\<close> on the node object at position \<open>j\<close> of the store.
\<close>

definition add_load :: "node list \<Rightarrow> nat \<Rightarrow> int \<Rightarrow> node list" where
  "add_load nodes j w = nodes[j := (nodes ! j)\<lparr>Load := Load (nodes ! j) + w\<rparr>]"

text \<open>
  \<open>round_robin\<close>, \<open>shortest_job_first\<close> and \<open>economic\<close> run the same loop
  \<^verbatim>\<open>
    for i, task in enumerate(ts):
        node = ref[i % len(nodes)]
        node["Load"] += task["Workload"]
        assignments.append((task["id"], node["id"]))
  \<close>
  and differ in the task list \<open>ts\<close> and in the list \<open>ref\<close> of node objects that is indexed
  (\<open>nodes\<close> itself, or a sorted copy of it). \<open>refs\<close> holds, for every position of \<open>ref\<close>, the
  position of that node object in the store. \<open>i % len(nodes)\<close> raises ZeroDivisionError
  when \<open>nodes\<close> is empty.
\<close>

fun assign_loop ::
  "nat list \<Rightarrow> nat \<Rightarrow> task list \<Rightarrow> node list \<Rightarrow> assignment list
     \<Rightarrow> py_error + (assignment list \<times> node list)" where
  "assign_loop refs i [] nodes assignments = Inr (assignments, nodes)"
| "assign_loop refs i (t # ts) nodes assignments =
     (if length nodes = 0 then Inl ZeroDivisionError
      else let j = refs ! (i mod length nodes);
               nodes' = add_load nodes j (Workload t)
           in assign_loop refs (Suc i) ts nodes' (assignments @ [(task_id t, node_id (nodes' ! j))]))"

text \<open>
  \<open>sorted(xs, key=f)\<close> is a stable sort and returns a new list of the same objects.
  For the node list the sorted copy is the stably sorted list of store positions.
\<close>

definition sorted_refs :: "(node \<Rightarrow> 'k::linorder) \<Rightarrow> node list \<Rightarrow> nat list" where
  "sorted_refs key nodes = sort_key (\<lambda>j. key (nodes ! j)) [0..<length nodes]"

definition round_robin :: "node list \<Rightarrow> task list \<Rightarrow> py_error + (assignment list \<times> node list)" where
  "round_robin nodes tasks = assign_loop [0..<length nodes] 0 tasks nodes []"

definition shortest_job_first ::
  "node list \<Rightarrow> task list \<Rightarrow> py_error + (assignment list \<times> node list)" where
  "shortest_job_first nodes tasks =
     (let tasks_sorted = sort_key Workload tasks;
          nodes_sorted = sorted_refs Load nodes
      in assign_loop nodes_sorted 0 tasks_sorted nodes [])"

definition economic :: "node list \<Rightarrow> task list \<Rightarrow> py_error + (assignment list \<times> node list)" where
  "economic nodes tasks =
     (let nodes_sorted = sorted_refs Cost nodes
      in assign_loop nodes_sorted 0 tasks nodes [])"

text \<open>The three fluctuation statements of \<open>predictive_qos\<close> on one node, in source order.\<close>

definition perturb :: "node \<Rightarrow> rng \<Rightarrow> node \<times> rng" where
  "perturb nd g =
     (let (dc, g1) = choice [-1, 0, 1] g;
          nd1 = nd\<lparr>CPU := max 1 (CPU nd + dc)\<rparr>;
          (db, g2) = choice [-10, 0, 10] g1;
          nd2 = nd1\<lparr>Bandwidth := max 10 (Bandwidth nd1 + db)\<rparr>;
          (dr, g3) = choice [- (1 / 100), 0, 1 / 100] g2;
          nd3 = nd2\<lparr>Reliability := max (7 / 10) (min (99 / 100) (Reliability nd2 + dr))\<rparr>
      in (nd3, g3))"

text \<open>\<open>for node in nodes:\<close> over the store, first node first.\<close>

fun perturb_all :: "node list \<Rightarrow> rng \<Rightarrow> node list \<times> rng" where
  "perturb_all [] g = ([], g)"
| "perturb_all (nd # nds) g =
     (let (nd', g1) = perturb nd g;
          (nds', g2) = perturb_all nds g1
      in (nd' # nds', g2))"

definition score :: "node \<Rightarrow> rat" where
  "score x = of_int (Bandwidth x) * Reliability x - of_int (Load x)"

text \<open>
  \<open>sorted(nodes, key=score, reverse=True)\<close> sorts descending and keeps the original order
  of elements with equal keys; that is the stable ascending sort by the negated key.
  \<open>scored[0]\<close> raises IndexError on an empty list.
\<close>

definition predictive_step ::
  "task \<Rightarrow> node list \<Rightarrow> rng \<Rightarrow> py_error + (assignment \<times> node list \<times> rng)" where
  "predictive_step t nodes g =
     (let (nodes1, g1) = perturb_all nodes g;
          scored = sorted_refs (\<lambda>x. - score x) nodes1
      in case scored of
           [] \<Rightarrow> Inl IndexError
         | j # _ \<Rightarrow>
             let nodes2 = add_load nodes1 j (Workload t)
             in Inr ((task_id t, node_id (nodes2 ! j)), nodes2, g1))"

fun predictive_loop ::
  "task list \<Rightarrow> node list \<Rightarrow> rng \<Rightarrow> assignment list
     \<Rightarrow> py_error + (assignment list \<times> node list \<times> rng)" where
  "predictive_loop [] nodes g assignments = Inr (assignments, nodes, g)"
| "predictive_loop (t # ts) nodes g assignments =
     (case predictive_step t nodes g of
        Inl e \<Rightarrow> Inl e
      | Inr (a, nodes2, g1) \<Rightarrow> predictive_loop ts nodes2 g1 (assignments @ [a]))"

definition predictive_qos ::
  "node list \<Rightarrow> task list \<Rightarrow> rng \<Rightarrow> py_error + (assignment list \<times> node list \<times> rng)" where
  "predictive_qos nodes tasks g = predictive_loop tasks nodes g []"

subsection \<open>QoS and SLA evaluation\<close>

text \<open>
  The \<open>"SLA Met"\<close> entry holds a check mark when \<open>sla_met\<close> is true and a cross otherwise;
  the record keeps the boolean.
\<close>

record eval_record =
  Task :: string
  Node :: string
  Latency :: rat
  Throughput :: rat
  Reliability_r :: rat
  QoS_Score :: rat
  Exec_Time :: rat
  SLA_Time_r :: int
  SLA_Met :: bool






subsection \<open>Aggregation of the records\<close>




subsection \<open>Ranges of generated entities (predicates used by the theorems)\<close>

definition node_in_range :: "node \<Rightarrow> bool" where
  "node_in_range nd \<longleftrightarrow>
     2 \<le> CPU nd \<and> CPU nd \<le> 10 \<and> 8 \<le> Memory nd \<and> Memory nd \<le> 32 \<and>
     50 \<le> Bandwidth nd \<and> Bandwidth nd \<le> 150 \<and>
     85 / 100 \<le> Reliability nd \<and> Reliability nd \<le> 99 / 100 \<and>
     1 / 2 \<le> Cost nd \<and> Cost nd \<le> 3 \<and> Load nd = 0"

definition task_in_range :: "task \<Rightarrow> bool" where
  "task_in_range t \<longleftrightarrow>
     3 \<le> Workload t \<and> Workload t \<le> 10 \<and> 3 \<le> SLA_Time t \<and> SLA_Time t \<le> 9 \<and>
     Priority t \<in> {''Low'', ''Medium'', ''High''}"

subsection \<open>Closed forms of the cyclic schedulers (used by the theorems)\<close>

text \<open>
  \<open>received n p ts\<close> is the total workload of the tasks of \<open>ts\<close> whose position is
  congruent to \<open>p\<close> modulo \<open>n\<close>: what the node at position \<open>p\<close> of the indexed list is
  given. \<open>loads_after\<close> is the store after the loop has run over \<open>ts\<close>, counting positions
  from \<open>i\<close>.
\<close>

definition received :: "nat \<Rightarrow> nat \<Rightarrow> task list \<Rightarrow> int" where
  "received n p ts =
     sum_list (map (\<lambda>i. Workload (ts ! i)) (filter (\<lambda>i. i mod n = p) [0..<length ts]))"

definition loads_after :: "nat list \<Rightarrow> nat \<Rightarrow> task list \<Rightarrow> node list \<Rightarrow> node list" where
  "loads_after refs i ts nodes =
     map (\<lambda>j. (nodes ! j)\<lparr>Load := Load (nodes ! j) +
            sum_list (map (\<lambda>(k, t). Workload t)
              (filter (\<lambda>(k, t). refs ! (k mod length nodes) = j) (enumerate i ts)))\<rparr>)
       [0..<length nodes]"

subsection \<open>Predicates that state the claims about the schedulers\<close>

text \<open>
  \<open>perturbed nd nd'\<close>: \<open>nd'\<close> is \<open>nd\<close> after one fluctuation as the specification words it:
  CPU moved by a delta in \{-1, 0, 1\} and kept at 1 or more, Bandwidth moved by a delta in
  \{-10, 0, 10\} and kept at 10 or more, Reliability moved by a delta in \{-0.01, 0, 0.01\}
  and clamped to [0.70, 0.99]; nothing else changed.
  \<open>first_best nodes j\<close>: position \<open>j\<close> has the maximal score and every earlier position has
  a strictly smaller one.
  \<open>each_task_once\<close>: the task ids of the assignments are the task ids of the input, each
  as often as in the input (exactly once when the input ids are distinct), and every
  node id of an assignment is the id of an input node.
\<close>

definition perturbed :: "node \<Rightarrow> node \<Rightarrow> bool" where
  "perturbed nd nd' \<longleftrightarrow>
     (\<exists>dc \<in> set [-1, 0, 1]. \<exists>db \<in> set [-10, 0, 10]. \<exists>dr \<in> set [- (1 / 100), 0, 1 / 100].
        nd' = nd\<lparr>CPU := max 1 (CPU nd + dc),
                  Bandwidth := max 10 (Bandwidth nd + db),
                  Reliability := max (7 / 10) (min (99 / 100) (Reliability nd + dr))\<rparr>)"

definition first_best :: "node list \<Rightarrow> nat \<Rightarrow> bool" where
  "first_best nodes j \<longleftrightarrow>
     j < length nodes \<and>
     (\<forall>k < length nodes. score (nodes ! k) \<le> score (nodes ! j)) \<and>
     (\<forall>k < j. score (nodes ! k) < score (nodes ! j))"

definition each_task_once :: "node list \<Rightarrow> task list \<Rightarrow> assignment list \<Rightarrow> bool" where
  "each_task_once nodes tasks as \<longleftrightarrow>
     mset (map fst as) = mset (map task_id tasks) \<and>
     (distinct (map task_id tasks) \<longrightarrow> (\<forall>t \<in> set tasks. count_list (map fst as) (task_id t) = 1)) \<and>
     (\<forall>a \<in> set as. snd a \<in> node_id ` set nodes)"

subsection \<open>The node-state invariant (used by the theorems)\<close>

text \<open>
  \<open>node_inv\<close> is the invariant of the data model: Load at least 0, Reliability in
  [0.70, 0.99], CPU at least 1, Bandwidth at least 10. \<open>inv_kept nodes ns\<close>: the store \<open>ns\<close>
  has the nodes of \<open>nodes\<close> position by position, every node of \<open>ns\<close> satisfies the
  invariant, and no load is smaller than it was in \<open>nodes\<close>.
\<close>

definition node_inv :: "node \<Rightarrow> bool" where
  "node_inv nd \<longleftrightarrow>
     0 \<le> Load nd \<and> 7 / 10 \<le> Reliability nd \<and> Reliability nd \<le> 99 / 100 \<and>
     1 \<le> CPU nd \<and> 10 \<le> Bandwidth nd"

definition inv_kept :: "node list \<Rightarrow> node list \<Rightarrow> bool" where
  "inv_kept nodes ns \<longleftrightarrow>
     length ns = length nodes \<and> (\<forall>x \<in> set ns. node_inv x) \<and>
     (\<forall>k < length nodes. Load (nodes ! k) \<le> Load (ns ! k))"

subsection \<open>Example entities\<close>

definition ex_node :: "int \<Rightarrow> node" where
  "ex_node cpu = \<lparr>node_id = ''Node-1'', CPU = cpu, Memory = 16, Bandwidth = 100,
     Reliability = 9 / 10, Cost = 1, Load = 0\<rparr>"



definition ex_node2 :: "string \<Rightarrow> rat \<Rightarrow> int \<Rightarrow> node" where
  "ex_node2 name cost load = \<lparr>node_id = name, CPU = 4, Memory = 16, Bandwidth = 100,
     Reliability = 9 / 10, Cost = cost, Load = load\<rparr>"

definition ex_task2 :: "string \<Rightarrow> int \<Rightarrow> task" where
  "ex_task2 name w = \<lparr>task_id = name, Workload = w, Priority = ''Low'', SLA_Time = 5\<rparr>"

definition ex_pool :: "node list" where
  "ex_pool = [ex_node2 ''Node-1'' 3 0, ex_node2 ''Node-2'' (1 / 2) 100, ex_node2 ''Node-3'' (3 / 2) 0]"

definition ex_jobs :: "task list" where
  "ex_jobs = [ex_task2 ''Task-1'' 5, ex_task2 ''Task-2'' 3, ex_task2 ''Task-3'' 4, ex_task2 ''Task-4'' 6]"

section \<open>Properties\<close>

subsection \<open>Rounding, random draws and decimal numerals\<close>


lemma round_half_even_ge: "of_int k \<le> y \<Longrightarrow> k \<le> round_half_even y"
proof -
  assume "of_int k \<le> y"
  then have "k \<le> \<lfloor>y\<rfloor>" by (simp add: le_floor_iff)
  then show ?thesis by (simp add: round_half_even_def Let_def)
qed

lemma round_half_even_le: "y \<le> of_int k \<Longrightarrow> round_half_even y \<le> k"
proof (cases "y = of_int k")
  case True
  then show ?thesis by (simp add: round_half_even_def)
next
  case False
  assume "y \<le> of_int k"
  with False have "y < of_int k" by simp
  then have "\<lfloor>y\<rfloor> < k" by (simp add: floor_less_iff)
  then show ?thesis by (simp add: round_half_even_def Let_def)
qed

lemma py_round_2_ge: "of_int k / 100 \<le> x \<Longrightarrow> of_int k / 100 \<le> py_round x 2"
proof -
  assume "of_int k / 100 \<le> x"
  then have "of_int k \<le> x * 10 ^ 2" by (simp add: field_simps)
  then have "k \<le> round_half_even (x * 10 ^ 2)" by (rule round_half_even_ge)
  then have "(of_int k :: rat) \<le> of_int (round_half_even (x * 10 ^ 2))" by simp
  then show ?thesis by (simp add: py_round_def divide_le_cancel)
qed

lemma py_round_2_le: "x \<le> of_int k / 100 \<Longrightarrow> py_round x 2 \<le> of_int k / 100"
proof -
  assume "x \<le> of_int k / 100"
  then have "x * 10 ^ 2 \<le> of_int k" by (simp add: field_simps)
  then have "round_half_even (x * 10 ^ 2) \<le> k" by (rule round_half_even_le)
  then have "(of_int (round_half_even (x * 10 ^ 2)) :: rat) \<le> of_int k" by simp
  then show ?thesis by (simp add: py_round_def divide_le_cancel)
qed

lemma randint_range: "a \<le> b \<Longrightarrow> a \<le> fst (randint a b g) \<and> fst (randint a b g) \<le> b"
proof -
  assume ab: "a \<le> b"
  then have "0 < nat (b - a + 1)" by simp
  then have "g 0 mod nat (b - a + 1) < nat (b - a + 1)" by (rule mod_less_divisor)
  then have "int (g 0 mod nat (b - a + 1)) < b - a + 1" using ab by linarith
  then show ?thesis by (simp add: randint_def)
qed

lemma unit_draw_range: "0 \<le> unit_draw g \<and> unit_draw g \<le> 1"
proof -
  have "g 0 mod (g 1 + 2) < g 1 + 2" by simp
  then have "g 0 mod (g 1 + 2) \<le> g 1 + 1" by simp
  then have "(of_nat (g 0 mod (g 1 + 2)) :: rat) \<le> of_nat (g 1 + 1)"
    by (simp only: of_nat_le_iff)
  then show ?thesis by (simp add: unit_draw_def)
qed

lemma uniform_range: "a \<le> b \<Longrightarrow> a \<le> fst (uniform a b g) \<and> fst (uniform a b g) \<le> b"
proof -
  assume ab: "a \<le> b"
  have u: "0 \<le> unit_draw g" "unit_draw g \<le> 1" using unit_draw_range by simp_all
  have "0 \<le> (b - a) * unit_draw g" using ab u by simp
  moreover have "(b - a) * unit_draw g \<le> (b - a) * 1"
    using ab u by (intro mult_left_mono) simp_all
  ultimately show ?thesis by (simp add: uniform_def)
qed

lemma choice_in_set: "xs \<noteq> [] \<Longrightarrow> fst (choice xs g) \<in> set xs"
  by (simp add: choice_def)

lemma digit_val_digit_char: "d < 10 \<Longrightarrow> digit_val (digit_char d) = d"
proof -
  assume "d < 10"
  then have "d \<in> {0, 1, 2, 3, 4, 5, 6, 7, 8, 9}" by auto
  then show ?thesis
    by (auto simp: digit_val_def digit_char_def)
qed

lemma nat_of_str_append: "nat_of_str (s @ [c]) = 10 * nat_of_str s + digit_val c"
  by (simp add: nat_of_str_def)

lemma nat_of_str_str_nat: "nat_of_str (str_nat n) = n"
proof (induction n rule: str_nat.induct)
  case (1 n)
  show ?case
  proof (cases "n < 10")
    case True
    then show ?thesis
      by (subst str_nat.simps) (simp add: nat_of_str_def digit_val_digit_char)
  next
    case False
    then have "nat_of_str (str_nat (n div 10)) = n div 10" using 1 by simp
    then show ?thesis
      using False
      by (subst str_nat.simps) (simp add: nat_of_str_append digit_val_digit_char)
  qed
qed

lemma str_nat_inj: "str_nat m = str_nat n \<Longrightarrow> m = n"
  by (metis nat_of_str_str_nat)


lemma make_node_fields:
  "node_id (fst (make_node i g)) = ''Node-'' @ str_nat (i + 1)"
  "2 \<le> CPU (fst (make_node i g))" "CPU (fst (make_node i g)) \<le> 10"
  "8 \<le> Memory (fst (make_node i g))" "Memory (fst (make_node i g)) \<le> 32"
  "50 \<le> Bandwidth (fst (make_node i g))" "Bandwidth (fst (make_node i g)) \<le> 150"
  "85 / 100 \<le> Reliability (fst (make_node i g))" "Reliability (fst (make_node i g)) \<le> 99 / 100"
  "1 / 2 \<le> Cost (fst (make_node i g))" "Cost (fst (make_node i g)) \<le> 3"
  "Load (fst (make_node i g)) = 0"
proof -
  show "node_id (fst (make_node i g)) = ''Node-'' @ str_nat (i + 1)"
    by (simp add: make_node_def case_prod_beta)
  show "2 \<le> CPU (fst (make_node i g))" "CPU (fst (make_node i g)) \<le> 10"
    using randint_range [of 2 10] by (simp_all add: make_node_def case_prod_beta)
  show "8 \<le> Memory (fst (make_node i g))" "Memory (fst (make_node i g)) \<le> 32"
    using randint_range [of 8 32] by (simp_all add: make_node_def case_prod_beta)
  show "50 \<le> Bandwidth (fst (make_node i g))" "Bandwidth (fst (make_node i g)) \<le> 150"
    using randint_range [of 50 150] by (simp_all add: make_node_def case_prod_beta)
  have r: "of_int 85 / 100 \<le> fst (uniform (85 / 100) (99 / 100) h)"
          "fst (uniform (85 / 100) (99 / 100) h) \<le> of_int 99 / 100" for h
    using uniform_range [of "85 / 100" "99 / 100" h] by simp_all
  show "85 / 100 \<le> Reliability (fst (make_node i g))"
    using py_round_2_ge [OF r(1)] by (simp add: make_node_def case_prod_beta)
  show "Reliability (fst (make_node i g)) \<le> 99 / 100"
    using py_round_2_le [OF r(2)] by (simp add: make_node_def case_prod_beta)
  have c: "of_int 50 / 100 \<le> fst (uniform (1 / 2) 3 h)"
          "fst (uniform (1 / 2) 3 h) \<le> of_int 300 / 100" for h
    using uniform_range [of "1 / 2" 3 h] by simp_all
  show "1 / 2 \<le> Cost (fst (make_node i g))"
    using py_round_2_ge [OF c(1)] by (simp add: make_node_def case_prod_beta)
  show "Cost (fst (make_node i g)) \<le> 3"
    using py_round_2_le [OF c(2)] by (simp add: make_node_def case_prod_beta)
  show "Load (fst (make_node i g)) = 0"
    by (simp add: make_node_def case_prod_beta)
qed

lemma make_task_fields:
  "task_id (fst (make_task i g)) = ''Task-'' @ str_nat (i + 1)"
  "3 \<le> Workload (fst (make_task i g))" "Workload (fst (make_task i g)) \<le> 10"
  "3 \<le> SLA_Time (fst (make_task i g))" "SLA_Time (fst (make_task i g)) \<le> 9"
  "Priority (fst (make_task i g)) \<in> {''Low'', ''Medium'', ''High''}"
proof -
  show "task_id (fst (make_task i g)) = ''Task-'' @ str_nat (i + 1)"
    by (simp add: make_task_def case_prod_beta)
  show "3 \<le> Workload (fst (make_task i g))" "Workload (fst (make_task i g)) \<le> 10"
    using randint_range [of 3 10] by (simp_all add: make_task_def case_prod_beta)
  show "3 \<le> SLA_Time (fst (make_task i g))" "SLA_Time (fst (make_task i g)) \<le> 9"
    using randint_range [of 3 9] by (simp_all add: make_task_def case_prod_beta)
  show "Priority (fst (make_task i g)) \<in> {''Low'', ''Medium'', ''High''}"
    using choice_in_set [of "[''Low'', ''Medium'', ''High'']"]
    by (simp add: make_task_def case_prod_beta)
qed

lemma create_nodes_from_length: "length (fst (create_nodes_from i k g)) = k"
  by (induction k arbitrary: i g) (simp_all add: case_prod_beta)

lemma create_nodes_from_ids:
  "map node_id (fst (create_nodes_from i k g)) = map (\<lambda>j. ''Node-'' @ str_nat (j + 1)) [i..<i + k]"
  by (induction k arbitrary: i g) (simp_all add: case_prod_beta make_node_fields(1) upt_rec)

lemma create_nodes_from_made:
  "nd \<in> set (fst (create_nodes_from i k g)) \<Longrightarrow> \<exists>j h. nd = fst (make_node j h)"
  by (induction k arbitrary: i g) (auto simp: case_prod_beta)

lemma create_tasks_from_length: "length (fst (create_tasks_from i k g)) = k"
  by (induction k arbitrary: i g) (simp_all add: case_prod_beta)

lemma create_tasks_from_ids:
  "map task_id (fst (create_tasks_from i k g)) = map (\<lambda>j. ''Task-'' @ str_nat (j + 1)) [i..<i + k]"
  by (induction k arbitrary: i g) (simp_all add: case_prod_beta make_task_fields(1) upt_rec)

lemma create_tasks_from_made:
  "t \<in> set (fst (create_tasks_from i k g)) \<Longrightarrow> \<exists>j h. t = fst (make_task j h)"
  by (induction k arbitrary: i g) (auto simp: case_prod_beta)

lemma distinct_numbered: "distinct (map (\<lambda>j. pre @ str_nat (j + 1)) [i..<i + k])"
proof -
  have "inj_on (\<lambda>j. pre @ str_nat (j + 1)) (set [i..<i + k])"
    by (rule inj_onI) (auto dest: str_nat_inj)
  then show ?thesis by (simp add: distinct_map)
qed


subsection \<open>The generators\<close>

text \<open>
  C6. For every count \<open>n \<ge> 1\<close> and every random source, \<open>create_nodes\<close> returns exactly \<open>n\<close>
  nodes whose ids are \<open>Node-1\<close>, ..., \<open>Node-n\<close>, pairwise distinct, with CPU in [2,10], Memory
  in [8,32], Bandwidth in [50,150], Reliability in [0.85,0.99], Cost in [0.5,3.0] and
  Load 0; \<open>create_tasks\<close> returns exactly \<open>n\<close> tasks whose ids \<open>Task-1\<close>, ..., \<open>Task-n\<close> are
  pairwise distinct, with Workload in [3,10], SLA\_Time in [3,9] and Priority one of Low,
  Medium, High.
\<close>

theorem generators_in_range:
  assumes "1 \<le> n"
  shows "length (fst (create_nodes n g)) = nat n \<and>
         map node_id (fst (create_nodes n g)) = map (\<lambda>j. ''Node-'' @ str_nat (j + 1)) [0..<nat n] \<and>
         distinct (map node_id (fst (create_nodes n g))) \<and>
         (\<forall>nd \<in> set (fst (create_nodes n g)). node_in_range nd) \<and>
         length (fst (create_tasks n h)) = nat n \<and>
         map task_id (fst (create_tasks n h)) = map (\<lambda>j. ''Task-'' @ str_nat (j + 1)) [0..<nat n] \<and>
         distinct (map task_id (fst (create_tasks n h))) \<and>
         (\<forall>t \<in> set (fst (create_tasks n h)). task_in_range t)"
proof -
  have nids: "map node_id (fst (create_nodes n g)) = map (\<lambda>j. ''Node-'' @ str_nat (j + 1)) [0..<nat n]"
    using create_nodes_from_ids [of 0 "nat n" g] by (simp add: create_nodes_def)
  have tids: "map task_id (fst (create_tasks n h)) = map (\<lambda>j. ''Task-'' @ str_nat (j + 1)) [0..<nat n]"
    using create_tasks_from_ids [of 0 "nat n" h] by (simp add: create_tasks_def)
  have nd: "distinct (map node_id (fst (create_nodes n g)))"
    using distinct_numbered [of "''Node-''" 0 "nat n"] by (simp only: nids add_0)
  have td: "distinct (map task_id (fst (create_tasks n h)))"
    using distinct_numbered [of "''Task-''" 0 "nat n"] by (simp only: tids add_0)
  have nr: "node_in_range x" if "x \<in> set (fst (create_nodes n g))" for x
  proof -
    from that obtain j k where "x = fst (make_node j k)"
      unfolding create_nodes_def by (blast dest: create_nodes_from_made)
    then show ?thesis
      using make_node_fields [of j k] by (simp add: node_in_range_def)
  qed
  have tr: "task_in_range x" if "x \<in> set (fst (create_tasks n h))" for x
  proof -
    from that obtain j k where "x = fst (make_task j k)"
      unfolding create_tasks_def by (blast dest: create_tasks_from_made)
    then show ?thesis
      using make_task_fields [of j k] by (simp add: task_in_range_def)
  qed
  show ?thesis
    using nids tids nd td nr tr
    by (simp add: create_nodes_def create_tasks_def create_nodes_from_length create_tasks_from_length)
qed

theorem generators_in_range_witness:
  "(1::int) \<le> 3 \<and>
   map node_id (fst (create_nodes 3 (\<lambda>i. 7 * i + 3))) = [''Node-1'', ''Node-2'', ''Node-3''] \<and>
   list_all node_in_range (fst (create_nodes 3 (\<lambda>i. 7 * i + 3))) \<and>
   map task_id (fst (create_tasks 3 (\<lambda>i. 5 * i + 1))) = [''Task-1'', ''Task-2'', ''Task-3''] \<and>
   list_all task_in_range (fst (create_tasks 3 (\<lambda>i. 5 * i + 1)))"
proof -
  have h: "(1::int) \<le> 3" by simp
  have ids: "map (\<lambda>j. pre @ str_nat (j + 1)) [0..<nat 3] = [pre @ ''1'', pre @ ''2'', pre @ ''3'']" for pre
    by (simp add: upt_rec str_nat.simps digit_char_def)
  show ?thesis
    using generators_in_range [OF h, of "\<lambda>i. 7 * i + 3" "\<lambda>i. 5 * i + 1"] ids [of "''Node-''"] ids [of "''Task-''"]
    by (simp add: list_all_iff)
qed

subsection \<open>Evaluation\<close>














subsection \<open>Aggregation\<close>






subsection \<open>The cyclic schedulers\<close>

lemma length_add_load [simp]: "length (add_load nodes j w) = length nodes"
  by (simp add: add_load_def)

lemma nth_add_load:
  "k < length nodes \<Longrightarrow>
     add_load nodes j w ! k = (if k = j then (nodes ! k)\<lparr>Load := Load (nodes ! k) + w\<rparr> else nodes ! k)"
  by (simp add: add_load_def nth_list_update)

lemma node_id_add_load: "k < length nodes \<Longrightarrow> node_id (add_load nodes j w ! k) = node_id (nodes ! k)"
  by (simp add: nth_add_load)

lemma loads_after_Nil: "loads_after refs i [] nodes = nodes"
  by (simp add: loads_after_def map_nth)

lemma loads_after_Cons:
  assumes "refs ! (i mod length nodes) < length nodes"
  shows "loads_after refs (Suc i) ts (add_load nodes (refs ! (i mod length nodes)) (Workload t))
           = loads_after refs i (t # ts) nodes"
  unfolding loads_after_def
  by (rule nth_equalityI) (simp_all add: nth_add_load)

lemma assign_loop_closed:
  assumes "nodes \<noteq> []" "\<forall>p < length nodes. refs ! p < length nodes"
  shows "assign_loop refs i ts nodes acc =
           Inr (acc @ map (\<lambda>(k, t). (task_id t, node_id (nodes ! (refs ! (k mod length nodes)))))
                        (enumerate i ts),
                loads_after refs i ts nodes)"
  using assms
proof (induction ts arbitrary: i nodes acc)
  case Nil
  then show ?case by (simp add: loads_after_Nil)
next
  case (Cons t ts)
  let ?n = "length nodes"
  let ?j = "refs ! (i mod ?n)"
  let ?nodes1 = "add_load nodes ?j (Workload t)"
  have n: "0 < ?n" using Cons.prems(1) by simp
  then have j: "?j < ?n" using Cons.prems(2) by simp
  have r: "\<forall>p < length ?nodes1. refs ! p < length ?nodes1" using Cons.prems(2) by simp
  have ne: "?nodes1 \<noteq> []" using n by (simp add: add_load_def)
  have ids: "map (\<lambda>(k, t). (task_id t, node_id (?nodes1 ! (refs ! (k mod ?n))))) (enumerate (Suc i) ts)
      = map (\<lambda>(k, t). (task_id t, node_id (nodes ! (refs ! (k mod ?n))))) (enumerate (Suc i) ts)"
    using Cons.prems(2) n by (intro map_cong) (auto simp: node_id_add_load)
  show ?case
    using Cons.IH [OF ne r, of "Suc i"] n j ids loads_after_Cons [OF j, of ts t]
    by (simp add: Let_def node_id_add_load)
qed

lemma enumerate_0_conv: "enumerate 0 xs = map (\<lambda>i. (i, xs ! i)) [0..<length xs]"
  by (rule nth_equalityI) (simp_all add: nth_enumerate_eq)

lemma insort_key_map: "map g (insort_key (\<lambda>x. f (g x)) x xs) = insort_key f (g x) (map g xs)"
  by (induction xs) simp_all

lemma sort_key_map: "map g (sort_key (\<lambda>x. f (g x)) xs) = sort_key f (map g xs)"
  by (induction xs) (simp_all add: insort_key_map)

lemma sorted_refs_props:
  "length (sorted_refs key nodes) = length nodes"
  "set (sorted_refs key nodes) = {..<length nodes}"
  "distinct (sorted_refs key nodes)"
  "map ((!) nodes) (sorted_refs key nodes) = sort_key key nodes"
proof -
  show "length (sorted_refs key nodes) = length nodes" by (simp add: sorted_refs_def)
  show "set (sorted_refs key nodes) = {..<length nodes}" by (auto simp: sorted_refs_def)
  show "distinct (sorted_refs key nodes)" by (simp add: sorted_refs_def)
  have "map ((!) nodes) (sort_key (\<lambda>j. key (nodes ! j)) [0..<length nodes])
      = sort_key key (map ((!) nodes) [0..<length nodes])"
    by (rule sort_key_map)
  then show "map ((!) nodes) (sorted_refs key nodes) = sort_key key nodes"
    by (simp add: sorted_refs_def map_nth)
qed

lemma sorted_refs_nth:
  assumes "p < length nodes"
  shows "sorted_refs key nodes ! p < length nodes"
    and "nodes ! (sorted_refs key nodes ! p) = sort_key key nodes ! p"
proof -
  have "sorted_refs key nodes ! p \<in> set (sorted_refs key nodes)"
    using assms by (simp add: sorted_refs_props(1))
  then show "sorted_refs key nodes ! p < length nodes" by (simp add: sorted_refs_props(2))
  have "map ((!) nodes) (sorted_refs key nodes) ! p = sort_key key nodes ! p"
    by (simp add: sorted_refs_props(4))
  then show "nodes ! (sorted_refs key nodes ! p) = sort_key key nodes ! p"
    using assms by (simp add: sorted_refs_props(1))
qed

lemma assign_loop_index:
  assumes "nodes \<noteq> []" "\<forall>p < length nodes. refs ! p < length nodes"
  shows "\<exists>as ns. assign_loop refs 0 ts nodes [] = Inr (as, ns) \<and>
           length as = length ts \<and>
           (\<forall>i < length ts. as ! i = (task_id (ts ! i), node_id (nodes ! (refs ! (i mod length nodes))))) \<and>
           length ns = length nodes \<and>
           (\<forall>j < length nodes. ns ! j = (nodes ! j)\<lparr>Load := Load (nodes ! j) +
               sum_list (map (\<lambda>i. Workload (ts ! i))
                 (filter (\<lambda>i. refs ! (i mod length nodes) = j) [0..<length ts]))\<rparr>)"
proof -
  let ?as = "map (\<lambda>(k, t). (task_id t, node_id (nodes ! (refs ! (k mod length nodes))))) (enumerate 0 ts)"
  have run: "assign_loop refs 0 ts nodes [] = Inr (?as, loads_after refs 0 ts nodes)"
    using assign_loop_closed [OF assms, of 0 ts "[]"] by simp
  have 1: "length ?as = length ts" by simp
  have 2: "\<forall>i < length ts. ?as ! i = (task_id (ts ! i), node_id (nodes ! (refs ! (i mod length nodes))))"
    by (simp add: nth_enumerate_eq)
  have 3: "length (loads_after refs 0 ts nodes) = length nodes" by (simp add: loads_after_def)
  have 4: "\<forall>j < length nodes. loads_after refs 0 ts nodes ! j = (nodes ! j)\<lparr>Load := Load (nodes ! j) +
               sum_list (map (\<lambda>i. Workload (ts ! i))
                 (filter (\<lambda>i. refs ! (i mod length nodes) = j) [0..<length ts]))\<rparr>"
    by (simp add: loads_after_def enumerate_0_conv filter_map comp_def)
  from run 1 2 3 4 show ?thesis by blast
qed

lemma round_robin_index:
  assumes "nodes \<noteq> []"
  shows "\<exists>as ns. round_robin nodes tasks = Inr (as, ns) \<and>
           length as = length tasks \<and>
           (\<forall>i < length tasks. as ! i = (task_id (tasks ! i), node_id (nodes ! (i mod length nodes)))) \<and>
           length ns = length nodes \<and>
           (\<forall>j < length nodes. ns ! j = (nodes ! j)\<lparr>Load := Load (nodes ! j) + received (length nodes) j tasks\<rparr>)"
proof -
  have r: "\<forall>p < length nodes. [0..<length nodes] ! p < length nodes" by simp
  have m: "[0..<length nodes] ! (i mod length nodes) = i mod length nodes" for i
    using assms by simp
  show ?thesis
    using assign_loop_index [OF assms r, of tasks]
    by (simp add: round_robin_def received_def m)
qed

lemma assign_loop_sorted:
  assumes "nodes \<noteq> []"
  shows "\<exists>as ns. assign_loop (sorted_refs key nodes) 0 ts nodes [] = Inr (as, ns) \<and>
           length as = length ts \<and>
           (\<forall>i < length ts. as ! i = (task_id (ts ! i), node_id (sort_key key nodes ! (i mod length nodes)))) \<and>
           length ns = length nodes \<and>
           (\<forall>p < length nodes. ns ! (sorted_refs key nodes ! p) =
               (sort_key key nodes ! p)\<lparr>Load := Load (sort_key key nodes ! p) + received (length nodes) p ts\<rparr>)"
proof -
  let ?refs = "sorted_refs key nodes"
  let ?n = "length nodes"
  have n: "0 < ?n" using assms by simp
  have r: "\<forall>p < ?n. ?refs ! p < ?n" by (simp add: sorted_refs_nth(1))
  from assign_loop_index [OF assms r, of ts] obtain as ns where
    run: "assign_loop ?refs 0 ts nodes [] = Inr (as, ns)" and
    la: "length as = length ts" and
    as: "\<forall>i < length ts. as ! i = (task_id (ts ! i), node_id (nodes ! (?refs ! (i mod ?n))))" and
    ln: "length ns = ?n" and
    ns: "\<forall>j < ?n. ns ! j = (nodes ! j)\<lparr>Load := Load (nodes ! j) +
               sum_list (map (\<lambda>i. Workload (ts ! i))
                 (filter (\<lambda>i. ?refs ! (i mod ?n) = j) [0..<length ts]))\<rparr>"
    by blast
  have as': "\<forall>i < length ts. as ! i = (task_id (ts ! i), node_id (sort_key key nodes ! (i mod ?n)))"
    using as n by (simp add: sorted_refs_nth(2))
  have ns': "ns ! (?refs ! p) =
      (sort_key key nodes ! p)\<lparr>Load := Load (sort_key key nodes ! p) + received ?n p ts\<rparr>"
    if p: "p < ?n" for p
  proof -
    have eq: "(?refs ! (i mod ?n) = ?refs ! p) = (i mod ?n = p)" for i
      using p n by (simp add: nth_eq_iff_index_eq sorted_refs_props(1,3))
    have "ns ! (?refs ! p) = (nodes ! (?refs ! p))\<lparr>Load := Load (nodes ! (?refs ! p)) +
               sum_list (map (\<lambda>i. Workload (ts ! i))
                 (filter (\<lambda>i. ?refs ! (i mod ?n) = ?refs ! p) [0..<length ts]))\<rparr>"
      using ns p by (simp add: sorted_refs_nth(1))
    then show ?thesis
      using p by (simp add: eq received_def sorted_refs_nth(2))
  qed
  from run la as' ln ns' show ?thesis by blast
qed

lemma stable_sort_key_props:
  "sorted (map f (sort_key f xs))"
  "mset (sort_key f xs) = mset xs"
  "filter (\<lambda>x. f x = k) (sort_key f xs) = filter (\<lambda>x. f x = k) xs"
  by (simp_all add: sort_key_stable)

lemma ex_pool_facts:
  "ex_pool \<noteq> []" "length ex_pool = 3" "length ex_jobs = 4"
  "sort_key Load ex_pool = [ex_node2 ''Node-1'' 3 0, ex_node2 ''Node-3'' (3 / 2) 0, ex_node2 ''Node-2'' (1 / 2) 100]"
  "sort_key Cost ex_pool = [ex_node2 ''Node-2'' (1 / 2) 100, ex_node2 ''Node-3'' (3 / 2) 0, ex_node2 ''Node-1'' 3 0]"
  "sort_key Workload ex_jobs = [ex_task2 ''Task-2'' 3, ex_task2 ''Task-3'' 4, ex_task2 ''Task-1'' 5, ex_task2 ''Task-4'' 6]"
  "sorted_refs Load ex_pool = [0, 2, 1]"
  "sorted_refs Cost ex_pool = [1, 2, 0]"
  by (simp_all add: ex_pool_def ex_jobs_def ex_node2_def ex_task2_def sorted_refs_def upt_rec)

lemma ex_received:
  "received 3 0 ex_jobs = 11" "received 3 (Suc 0) ex_jobs = 3" "received 3 2 ex_jobs = 4"
  "received 3 0 (sort_key Workload ex_jobs) = 9"
  by (simp_all add: ex_pool_facts received_def upt_rec) (simp_all add: ex_jobs_def ex_task2_def)

text \<open>
  C2. For every non-empty node list of length \<open>k\<close> and every task list, \<open>round_robin\<close>
  returns one assignment per task, in input order; the task at 0-based position \<open>i\<close> is
  assigned to \<open>nodes[i mod k]\<close>; afterwards every node's load is its load at entry plus the
  workloads of the tasks it was given, all other fields unchanged; and the assignment
  list is the same for every node list with the same ids in the same order, whatever the
  other attributes are.
\<close>

theorem round_robin_cyclic:
  assumes "nodes \<noteq> []"
  shows "\<exists>as ns. round_robin nodes tasks = Inr (as, ns) \<and>
           length as = length tasks \<and>
           (\<forall>i < length tasks. as ! i = (task_id (tasks ! i), node_id (nodes ! (i mod length nodes)))) \<and>
           length ns = length nodes \<and>
           (\<forall>j < length nodes. ns ! j = (nodes ! j)\<lparr>Load := Load (nodes ! j) + received (length nodes) j tasks\<rparr>) \<and>
           (\<forall>nodes2. map node_id nodes2 = map node_id nodes \<longrightarrow>
              (\<exists>ns2. round_robin nodes2 tasks = Inr (as, ns2)))"
proof -
  from round_robin_index [OF assms, of tasks] obtain as ns where
    run: "round_robin nodes tasks = Inr (as, ns)" and
    la: "length as = length tasks" and
    as: "\<forall>i < length tasks. as ! i = (task_id (tasks ! i), node_id (nodes ! (i mod length nodes)))" and
    rest: "length ns = length nodes"
      "\<forall>j < length nodes. ns ! j = (nodes ! j)\<lparr>Load := Load (nodes ! j) + received (length nodes) j tasks\<rparr>"
    by blast
  have indep: "\<exists>ns2. round_robin nodes2 tasks = Inr (as, ns2)"
    if same: "map node_id nodes2 = map node_id nodes" for nodes2
  proof -
    from same have len: "length nodes2 = length nodes" by (rule map_eq_imp_length_eq)
    with assms have ne: "nodes2 \<noteq> []" by auto
    from round_robin_index [OF ne, of tasks] obtain as2 ns2 where
      run2: "round_robin nodes2 tasks = Inr (as2, ns2)" and
      la2: "length as2 = length tasks" and
      as2: "\<forall>i < length tasks. as2 ! i = (task_id (tasks ! i), node_id (nodes2 ! (i mod length nodes2)))"
      by blast
    have id: "node_id (nodes2 ! k) = node_id (nodes ! k)" if "k < length nodes" for k
      using that len nth_map [of k nodes2 node_id] nth_map [of k nodes node_id] same by simp
    have "as2 = as"
    proof (rule nth_equalityI)
      show "length as2 = length as" using la la2 by simp
      fix i assume "i < length as2"
      then have i: "i < length tasks" using la2 by simp
      have "i mod length nodes < length nodes" using assms by simp
      then show "as2 ! i = as ! i" using i as as2 len id by simp
    qed
    with run2 show ?thesis by blast
  qed
  from run la as rest indep show ?thesis by blast
qed

theorem round_robin_cyclic_witness:
  "ex_pool \<noteq> [] \<and>
   (\<exists>as ns. round_robin ex_pool ex_jobs = Inr (as, ns) \<and> length as = 4 \<and>
      as ! 0 = (''Task-1'', ''Node-1'') \<and> as ! 1 = (''Task-2'', ''Node-2'') \<and>
      as ! 2 = (''Task-3'', ''Node-3'') \<and> as ! 3 = (''Task-4'', ''Node-1'') \<and>
      Load (ns ! 0) = 11 \<and> Load (ns ! 1) = 103 \<and> Load (ns ! 2) = 4)"
proof -
  from round_robin_cyclic [OF ex_pool_facts(1), of ex_jobs] obtain as ns where
    run: "round_robin ex_pool ex_jobs = Inr (as, ns)" and
    la: "length as = length ex_jobs" and
    as: "\<forall>i < length ex_jobs. as ! i = (task_id (ex_jobs ! i), node_id (ex_pool ! (i mod length ex_pool)))" and
    ns: "\<forall>j < length ex_pool. ns ! j = (ex_pool ! j)\<lparr>Load := Load (ex_pool ! j) + received (length ex_pool) j ex_jobs\<rparr>"
    by blast
  from as have a: "as ! 0 = (''Task-1'', ''Node-1'')" "as ! 1 = (''Task-2'', ''Node-2'')"
      "as ! 2 = (''Task-3'', ''Node-3'')" "as ! 3 = (''Task-4'', ''Node-1'')"
    by (simp_all add: ex_pool_facts(2,3)) (simp_all add: ex_pool_def ex_jobs_def ex_node2_def ex_task2_def)
  from ns have l: "Load (ns ! 0) = 11" "Load (ns ! 1) = 103" "Load (ns ! 2) = 4"
    by (simp_all add: ex_pool_facts(2) ex_received) (simp_all add: ex_pool_def ex_node2_def)
  from run la a l show ?thesis by (simp add: ex_pool_facts)
qed

text \<open>
  C3. For every non-empty node list and every task list, \<open>shortest_job_first\<close> assigns the
  task at position \<open>i\<close> of the tasks stably sorted by ascending workload to the node at
  position \<open>i mod len(nodes)\<close> of the nodes stably sorted by their load at entry, and adds
  the workloads to those nodes. The node order is the one computed from the loads at
  entry: the assignment of every task refers to that one sorted list, whatever the loads
  have become.
\<close>

theorem shortest_job_first_snapshot:
  assumes "nodes \<noteq> []"
  shows "\<exists>as ns. shortest_job_first nodes tasks = Inr (as, ns) \<and>
           length as = length tasks \<and>
           (\<forall>i < length tasks.
              as ! i = (task_id (sort_key Workload tasks ! i),
                        node_id (sort_key Load nodes ! (i mod length nodes)))) \<and>
           length ns = length nodes \<and>
           (\<forall>p < length nodes.
              ns ! (sorted_refs Load nodes ! p) =
                (sort_key Load nodes ! p)\<lparr>Load := Load (sort_key Load nodes ! p) +
                   received (length nodes) p (sort_key Workload tasks)\<rparr>) \<and>
           sorted (map Workload (sort_key Workload tasks)) \<and>
           mset (sort_key Workload tasks) = mset tasks \<and>
           (\<forall>w. filter (\<lambda>t. Workload t = w) (sort_key Workload tasks) = filter (\<lambda>t. Workload t = w) tasks) \<and>
           sorted (map Load (sort_key Load nodes)) \<and>
           mset (sort_key Load nodes) = mset nodes \<and>
           (\<forall>l. filter (\<lambda>x. Load x = l) (sort_key Load nodes) = filter (\<lambda>x. Load x = l) nodes) \<and>
           distinct (sorted_refs Load nodes) \<and> set (sorted_refs Load nodes) = {..<length nodes}"
proof -
  from assign_loop_sorted [OF assms, of Load "sort_key Workload tasks"]
  obtain as ns where
    "assign_loop (sorted_refs Load nodes) 0 (sort_key Workload tasks) nodes [] = Inr (as, ns)"
    "length as = length (sort_key Workload tasks)"
    "\<forall>i < length (sort_key Workload tasks).
        as ! i = (task_id (sort_key Workload tasks ! i), node_id (sort_key Load nodes ! (i mod length nodes)))"
    "length ns = length nodes"
    "\<forall>p < length nodes. ns ! (sorted_refs Load nodes ! p) =
        (sort_key Load nodes ! p)\<lparr>Load := Load (sort_key Load nodes ! p) +
           received (length nodes) p (sort_key Workload tasks)\<rparr>"
    by blast
  then have "shortest_job_first nodes tasks = Inr (as, ns) \<and>
           length as = length tasks \<and>
           (\<forall>i < length tasks.
              as ! i = (task_id (sort_key Workload tasks ! i),
                        node_id (sort_key Load nodes ! (i mod length nodes)))) \<and>
           length ns = length nodes \<and>
           (\<forall>p < length nodes.
              ns ! (sorted_refs Load nodes ! p) =
                (sort_key Load nodes ! p)\<lparr>Load := Load (sort_key Load nodes ! p) +
                   received (length nodes) p (sort_key Workload tasks)\<rparr>)"
    by (simp add: shortest_job_first_def)
  then show ?thesis
    using stable_sort_key_props [where f = Workload and xs = tasks]
      stable_sort_key_props [where f = Load and xs = nodes]
      sorted_refs_props(2,3) [of Load nodes]
    by blast
qed

theorem shortest_job_first_snapshot_witness:
  "ex_pool \<noteq> [] \<and>
   (\<exists>as ns. shortest_job_first ex_pool ex_jobs = Inr (as, ns) \<and> length as = 4 \<and>
      as ! 0 = (''Task-2'', ''Node-1'') \<and> as ! 1 = (''Task-3'', ''Node-3'') \<and>
      as ! 2 = (''Task-1'', ''Node-2'') \<and> as ! 3 = (''Task-4'', ''Node-1'') \<and>
      Load (ns ! 0) = 9)"
proof -
  from shortest_job_first_snapshot [OF ex_pool_facts(1), of ex_jobs] obtain as ns where
    run: "shortest_job_first ex_pool ex_jobs = Inr (as, ns)" and
    la: "length as = length ex_jobs" and
    as: "\<forall>i < length ex_jobs. as ! i = (task_id (sort_key Workload ex_jobs ! i),
            node_id (sort_key Load ex_pool ! (i mod length ex_pool)))" and
    ns: "\<forall>p < length ex_pool. ns ! (sorted_refs Load ex_pool ! p) =
            (sort_key Load ex_pool ! p)\<lparr>Load := Load (sort_key Load ex_pool ! p) +
               received (length ex_pool) p (sort_key Workload ex_jobs)\<rparr>"
    by blast
  from as have a: "as ! 0 = (''Task-2'', ''Node-1'')" "as ! 1 = (''Task-3'', ''Node-3'')"
      "as ! 2 = (''Task-1'', ''Node-2'')" "as ! 3 = (''Task-4'', ''Node-1'')"
    by (simp_all add: ex_pool_facts(2,3)) (simp_all add: ex_pool_facts(4,6) ex_node2_def ex_task2_def)
  from ns have "ns ! (sorted_refs Load ex_pool ! 0) =
            (sort_key Load ex_pool ! 0)\<lparr>Load := Load (sort_key Load ex_pool ! 0) +
               received (length ex_pool) 0 (sort_key Workload ex_jobs)\<rparr>"
    by (simp add: ex_pool_facts(2))
  then have l: "Load (ns ! 0) = 9"
    by (simp add: ex_pool_facts(2) ex_received) (simp add: ex_pool_facts(4,7) ex_node2_def)
  from run la a l show ?thesis by (simp add: ex_pool_facts)
qed

text \<open>
  C4. For every non-empty node list and every task list, \<open>economic\<close> assigns the task at
  position \<open>i\<close> of the unsorted task list to the node at position \<open>i mod len(nodes)\<close> of the
  nodes stably sorted by ascending cost, and adds the workloads to those nodes. For three
  nodes with costs 3.0, 0.5 and 1.5 the sorted order is: the cost-0.5 node, the cost-1.5
  node, the cost-3.0 node; so they receive the tasks at positions 0, 1, 2 and so on
  cyclically.
\<close>

theorem economic_by_cost:
  assumes "nodes \<noteq> []"
  shows "(\<exists>as ns. economic nodes tasks = Inr (as, ns) \<and>
           length as = length tasks \<and>
           (\<forall>i < length tasks.
              as ! i = (task_id (tasks ! i), node_id (sort_key Cost nodes ! (i mod length nodes)))) \<and>
           length ns = length nodes \<and>
           (\<forall>p < length nodes.
              ns ! (sorted_refs Cost nodes ! p) =
                (sort_key Cost nodes ! p)\<lparr>Load := Load (sort_key Cost nodes ! p) +
                   received (length nodes) p tasks\<rparr>)) \<and>
         sorted (map Cost (sort_key Cost nodes)) \<and>
         mset (sort_key Cost nodes) = mset nodes \<and>
         (\<forall>k. filter (\<lambda>x. Cost x = k) (sort_key Cost nodes) = filter (\<lambda>x. Cost x = k) nodes) \<and>
         (nodes = [a, b, c] \<and> Cost a = 3 \<and> Cost b = 1 / 2 \<and> Cost c = 3 / 2 \<longrightarrow>
            sort_key Cost nodes = [b, c, a])"
proof -
  from assign_loop_sorted [OF assms, of Cost tasks]
  have run: "\<exists>as ns. economic nodes tasks = Inr (as, ns) \<and>
           length as = length tasks \<and>
           (\<forall>i < length tasks.
              as ! i = (task_id (tasks ! i), node_id (sort_key Cost nodes ! (i mod length nodes)))) \<and>
           length ns = length nodes \<and>
           (\<forall>p < length nodes.
              ns ! (sorted_refs Cost nodes ! p) =
                (sort_key Cost nodes ! p)\<lparr>Load := Load (sort_key Cost nodes ! p) +
                   received (length nodes) p tasks\<rparr>)"
    by (simp add: economic_def)
  have ex: "nodes = [a, b, c] \<and> Cost a = 3 \<and> Cost b = 1 / 2 \<and> Cost c = 3 / 2 \<longrightarrow>
            sort_key Cost nodes = [b, c, a]"
    by simp
  from run ex show ?thesis
    using stable_sort_key_props [where f = Cost and xs = nodes] by blast
qed

theorem economic_by_cost_witness:
  "ex_pool \<noteq> [] \<and>
   ex_pool = [ex_node2 ''Node-1'' 3 0, ex_node2 ''Node-2'' (1 / 2) 100, ex_node2 ''Node-3'' (3 / 2) 0] \<and>
   Cost (ex_node2 ''Node-1'' 3 0) = 3 \<and> Cost (ex_node2 ''Node-2'' (1 / 2) 100) = 1 / 2 \<and>
   Cost (ex_node2 ''Node-3'' (3 / 2) 0) = 3 / 2 \<and>
   (\<exists>as ns. economic ex_pool ex_jobs = Inr (as, ns) \<and> length as = 4 \<and>
      as ! 0 = (''Task-1'', ''Node-2'') \<and> as ! 1 = (''Task-2'', ''Node-3'') \<and>
      as ! 2 = (''Task-3'', ''Node-1'') \<and> as ! 3 = (''Task-4'', ''Node-2''))"
proof -
  note inst = economic_by_cost [OF ex_pool_facts(1), of ex_jobs "ex_node2 ''Node-1'' 3 0"
      "ex_node2 ''Node-2'' (1 / 2) 100" "ex_node2 ''Node-3'' (3 / 2) 0"]
  have c: "Cost (ex_node2 ''Node-1'' 3 0) = 3" "Cost (ex_node2 ''Node-2'' (1 / 2) 100) = 1 / 2"
    "Cost (ex_node2 ''Node-3'' (3 / 2) 0) = 3 / 2"
    by (simp_all add: ex_node2_def)
  have p: "ex_pool = [ex_node2 ''Node-1'' 3 0, ex_node2 ''Node-2'' (1 / 2) 100, ex_node2 ''Node-3'' (3 / 2) 0]"
    by (simp add: ex_pool_def)
  from inst p c have srt: "sort_key Cost ex_pool =
      [ex_node2 ''Node-2'' (1 / 2) 100, ex_node2 ''Node-3'' (3 / 2) 0, ex_node2 ''Node-1'' 3 0]"
    by blast
  from inst obtain as ns where
    run: "economic ex_pool ex_jobs = Inr (as, ns)" and
    la: "length as = length ex_jobs" and
    as: "\<forall>i < length ex_jobs. as ! i = (task_id (ex_jobs ! i),
            node_id (sort_key Cost ex_pool ! (i mod length ex_pool)))"
    by blast
  from as have a: "as ! 0 = (''Task-1'', ''Node-2'')" "as ! 1 = (''Task-2'', ''Node-3'')"
      "as ! 2 = (''Task-3'', ''Node-1'')" "as ! 3 = (''Task-4'', ''Node-2'')"
    by (simp_all add: ex_pool_facts(2,3) srt) (simp_all add: ex_jobs_def ex_node2_def ex_task2_def)
  from run la a c p show ?thesis by (simp add: ex_pool_facts(1,3))
qed


subsection \<open>The predictive scheduler\<close>

lemma perturb_perturbed: "perturbed nd (fst (perturb nd g))"
proof -
  let ?dc = "fst (choice [-1, 0, 1 :: int] g)"
  let ?g1 = "snd (choice [-1, 0, 1 :: int] g)"
  let ?db = "fst (choice [-10, 0, 10 :: int] ?g1)"
  let ?g2 = "snd (choice [-10, 0, 10 :: int] ?g1)"
  let ?dr = "fst (choice [- (1 / 100), 0, 1 / 100 :: rat] ?g2)"
  have 1: "?dc \<in> set [-1, 0, 1]" by (rule choice_in_set) simp
  have 2: "?db \<in> set [-10, 0, 10]" by (rule choice_in_set) simp
  have 3: "?dr \<in> set [- (1 / 100), 0, 1 / 100]" by (rule choice_in_set) simp
  have "fst (perturb nd g) = nd\<lparr>CPU := max 1 (CPU nd + ?dc),
                  Bandwidth := max 10 (Bandwidth nd + ?db),
                  Reliability := max (7 / 10) (min (99 / 100) (Reliability nd + ?dr))\<rparr>"
    by (simp add: perturb_def case_prod_beta Let_def)
  with 1 2 3 show ?thesis unfolding perturbed_def by blast
qed

lemma perturb_all_perturbed: "list_all2 perturbed nodes (fst (perturb_all nodes g))"
  by (induction nodes arbitrary: g) (simp_all add: case_prod_beta perturb_perturbed)

lemma perturbed_fixed:
  assumes "perturbed nd nd'"
  shows "node_id nd' = node_id nd" "Memory nd' = Memory nd" "Cost nd' = Cost nd" "Load nd' = Load nd"
  using assms unfolding perturbed_def by auto

lemma filter_upt_first:
  assumes "filter P [0..<n] = j # r"
  shows "j < n \<and> P j \<and> (\<forall>k < j. \<not> P k)"
proof -
  have mem: "j \<in> set (filter P [0..<n])" using assms by simp
  then have j: "j < n" "P j" by simp_all
  have srt: "sorted (filter P [0..<n])" by (simp add: sorted_wrt_filter)
  have "\<not> P k" if "k < j" for k
  proof
    assume "P k"
    with that j have "k \<in> set (filter P [0..<n])" by simp
    with assms have "k = j \<or> k \<in> set r" by simp
    moreover from srt assms have "\<forall>x \<in> set r. j \<le> x" by simp
    ultimately show False using that by auto
  qed
  with j show ?thesis by blast
qed

lemma sort_key_head:
  assumes "sort_key f xs = j # r"
  shows "\<forall>x \<in> set xs. f j \<le> f x"
proof -
  have "sorted (map f (sort_key f xs))" by simp
  with assms have "\<forall>x \<in> set r. f j \<le> f x" by simp
  moreover have "set xs = insert j (set r)"
    using assms set_sort [of f xs] by simp
  ultimately show ?thesis by auto
qed

lemma sorted_refs_first_best:
  assumes "sorted_refs (\<lambda>x. - score x) nodes = j # r"
  shows "first_best nodes j"
proof -
  let ?f = "\<lambda>i. - score (nodes ! i)"
  from assms have s: "sort_key ?f [0..<length nodes] = j # r" by (simp add: sorted_refs_def)
  from sort_key_head [OF s] have best: "\<forall>k < length nodes. score (nodes ! k) \<le> score (nodes ! j)"
    by simp
  have "filter (\<lambda>i. ?f i = ?f j) (sort_key ?f [0..<length nodes]) = filter (\<lambda>i. ?f i = ?f j) [0..<length nodes]"
    by (rule sort_key_stable)
  with s have "filter (\<lambda>i. ?f i = ?f j) [0..<length nodes] = j # filter (\<lambda>i. ?f i = ?f j) r"
    by simp
  from filter_upt_first [OF this] have j: "j < length nodes" and
    first: "\<forall>k < j. score (nodes ! k) \<noteq> score (nodes ! j)"
    by simp_all
  have "score (nodes ! k) < score (nodes ! j)" if "k < j" for k
    using that best first j by (simp add: order.strict_iff_order)
  with j best show ?thesis unfolding first_best_def by blast
qed


lemma predictive_step_char:
  assumes "nodes \<noteq> []"
  shows "\<exists>j nodes1 g1. perturb_all nodes g = (nodes1, g1) \<and>
           list_all2 perturbed nodes nodes1 \<and> first_best nodes1 j \<and>
           predictive_step t nodes g =
             Inr ((task_id t, node_id (nodes ! j)), add_load nodes1 j (Workload t), g1)"
proof -
  obtain nodes1 g1 where p: "perturb_all nodes g = (nodes1, g1)" by (cases "perturb_all nodes g")
  have l2: "list_all2 perturbed nodes nodes1"
    using perturb_all_perturbed [of nodes g] p by simp
  then have len: "length nodes1 = length nodes" by (simp add: list_all2_lengthD)
  with assms have "sorted_refs (\<lambda>x. - score x) nodes1 \<noteq> []"
    using sorted_refs_props(1) [of "\<lambda>x. - score x" nodes1] by auto
  then obtain j r where s: "sorted_refs (\<lambda>x. - score x) nodes1 = j # r"
    by (cases "sorted_refs (\<lambda>x. - score x) nodes1") auto
  from sorted_refs_first_best [OF s] have fb: "first_best nodes1 j" .
  then have j: "j < length nodes1" by (simp add: first_best_def)
  have "perturbed (nodes ! j) (nodes1 ! j)"
    using l2 j len by (simp add: list_all2_conv_all_nth)
  then have id: "node_id (nodes1 ! j) = node_id (nodes ! j)" by (rule perturbed_fixed)
  have "predictive_step t nodes g =
      Inr ((task_id t, node_id (nodes ! j)), add_load nodes1 j (Workload t), g1)"
    using p s j id by (simp add: predictive_step_def node_id_add_load)
  with p l2 fb show ?thesis by blast
qed

lemma predictive_loop_acc:
  "predictive_loop ts nodes g acc =
     (case predictive_loop ts nodes g [] of Inl e \<Rightarrow> Inl e | Inr (as, r) \<Rightarrow> Inr (acc @ as, r))"
proof (induction ts arbitrary: nodes g acc)
  case Nil
  show ?case by simp
next
  case (Cons t ts)
  show ?case
  proof (cases "predictive_step t nodes g")
    case (Inl e)
    then show ?thesis by simp
  next
    case (Inr x)
    obtain a nodes2 g1 where x: "x = (a, nodes2, g1)" by (cases x)
    show ?thesis
      using Inr x Cons.IH [of nodes2 g1 "acc @ [a]"] Cons.IH [of nodes2 g1 "[a]"]
      by (simp split: sum.splits)
  qed
qed

lemma predictive_qos_unfold:
  "predictive_qos nodes [] g = Inr ([], nodes, g)"
  "predictive_qos nodes (t # ts) g =
     (case predictive_step t nodes g of
        Inl e \<Rightarrow> Inl e
      | Inr (a, nodes2, g1) \<Rightarrow>
          (case predictive_qos nodes2 ts g1 of Inl e \<Rightarrow> Inl e | Inr (as, r) \<Rightarrow> Inr (a # as, r)))"
proof -
  show "predictive_qos nodes [] g = Inr ([], nodes, g)" by (simp add: predictive_qos_def)
  show "predictive_qos nodes (t # ts) g =
     (case predictive_step t nodes g of
        Inl e \<Rightarrow> Inl e
      | Inr (a, nodes2, g1) \<Rightarrow>
          (case predictive_qos nodes2 ts g1 of Inl e \<Rightarrow> Inl e | Inr (as, r) \<Rightarrow> Inr (a # as, r)))"
    using predictive_loop_acc [where acc = "[a]" for a]
    by (simp add: predictive_qos_def split: sum.splits prod.splits)
qed

lemma map_node_id_add_load: "map node_id (add_load nodes j w) = map node_id nodes"
proof (cases "j < length nodes")
  case True
  then show ?thesis
    by (intro nth_equalityI) (simp_all add: node_id_add_load)
next
  case False
  then show ?thesis by (simp add: add_load_def list_update_beyond)
qed

lemma map_node_id_perturbed:
  assumes "list_all2 perturbed nodes nodes1"
  shows "map node_id nodes1 = map node_id nodes"
proof (rule nth_equalityI)
  show "length (map node_id nodes1) = length (map node_id nodes)"
    using assms by (simp add: list_all2_lengthD)
  fix i assume "i < length (map node_id nodes1)"
  then have i: "i < length nodes1" by simp
  with assms have "perturbed (nodes ! i) (nodes1 ! i)" by (simp add: list_all2_conv_all_nth)
  then have "node_id (nodes1 ! i) = node_id (nodes ! i)" by (rule perturbed_fixed)
  with i assms show "map node_id nodes1 ! i = map node_id nodes ! i"
    by (simp add: list_all2_lengthD)
qed

lemma predictive_qos_total:
  assumes "nodes \<noteq> []"
  shows "\<exists>as ns g'. predictive_qos nodes tasks g = Inr (as, ns, g') \<and>
           map fst as = map task_id tasks \<and> map node_id ns = map node_id nodes \<and>
           snd ` set as \<subseteq> node_id ` set nodes"
  using assms
proof (induction tasks arbitrary: nodes g)
  case Nil
  then show ?case by (simp add: predictive_qos_unfold(1))
next
  case (Cons t ts)
  from predictive_step_char [OF Cons.prems, of g t] obtain j nodes1 g1 where
    l2: "list_all2 perturbed nodes nodes1" and
    fb: "first_best nodes1 j" and
    step: "predictive_step t nodes g =
             Inr ((task_id t, node_id (nodes ! j)), add_load nodes1 j (Workload t), g1)"
    by blast
  let ?nodes2 = "add_load nodes1 j (Workload t)"
  have ids: "map node_id ?nodes2 = map node_id nodes"
    using map_node_id_perturbed [OF l2] by (simp add: map_node_id_add_load)
  then have "length ?nodes2 = length nodes" by (rule map_eq_imp_length_eq)
  with Cons.prems have ne: "?nodes2 \<noteq> []" by (metis length_0_conv)
  from Cons.IH [OF ne, of g1] obtain as ns g' where
    run: "predictive_qos ?nodes2 ts g1 = Inr (as, ns, g')" and
    tids: "map fst as = map task_id ts" and
    nids: "map node_id ns = map node_id ?nodes2" and
    sub: "snd ` set as \<subseteq> node_id ` set ?nodes2"
    by blast
  have j: "j < length nodes" using fb l2 by (simp add: first_best_def list_all2_lengthD)
  have same: "node_id ` set ?nodes2 = node_id ` set nodes"
    using ids by (metis set_map)
  have "predictive_qos nodes (t # ts) g = Inr ((task_id t, node_id (nodes ! j)) # as, ns, g')"
    using step run by (simp add: predictive_qos_unfold(2))
  moreover have "node_id (nodes ! j) \<in> node_id ` set nodes" using j by simp
  ultimately show ?case
    using tids nids ids sub same by auto
qed

lemma ex_jobs_ids: "map task_id ex_jobs = [''Task-1'', ''Task-2'', ''Task-3'', ''Task-4'']"
  by (simp add: ex_jobs_def ex_task2_def)





subsection \<open>All four strategies\<close>

lemma each_task_onceI:
  assumes "map fst as = map task_id ts" "mset ts = mset tasks" "snd ` set as \<subseteq> node_id ` set nodes"
  shows "each_task_once nodes tasks as"
proof -
  have m: "mset (map fst as) = mset (map task_id tasks)"
    using assms(1,2) by (metis mset_map)
  have "count_list (map fst as) (task_id t) = 1"
    if d: "distinct (map task_id tasks)" and t: "t \<in> set tasks" for t
  proof -
    have "count (mset (map task_id tasks)) (task_id t) = 1"
      using d t by (simp add: distinct_count_atmost_1)
    with m show ?thesis by (simp add: count_mset [symmetric] del: count_mset)
  qed
  with m assms(3) show ?thesis unfolding each_task_once_def by auto
qed

lemma index_form_fst:
  assumes "length as = length ts" "\<forall>i < length ts. as ! i = (task_id (ts ! i), node_id (ref ! (i mod n)))"
    "0 < n" "n = length ref"
  shows "map fst as = map task_id ts" "snd ` set as \<subseteq> node_id ` set ref"
proof -
  show "map fst as = map task_id ts"
    using assms(1,2) by (intro nth_equalityI) simp_all
  show "snd ` set as \<subseteq> node_id ` set ref"
  proof
    fix x assume "x \<in> snd ` set as"
    then obtain i where i: "i < length as" and x: "x = snd (as ! i)"
      by (auto simp: in_set_conv_nth)
    have "i mod n < length ref" using assms(3,4) by simp
    then have "node_id (ref ! (i mod n)) \<in> node_id ` set ref" by simp
    with i x assms(1,2) show "x \<in> node_id ` set ref" by simp
  qed
qed

text \<open>
  C1. For every non-empty node list and every task list (and every random source), each
  of the four strategies returns an assignment list in which the input task ids appear
  exactly as often as in the input, hence exactly once each when the task ids are
  distinct, and in which every node id is the id of an input node.
\<close>

theorem every_task_assigned_once:
  assumes "nodes \<noteq> []"
  shows "(\<exists>as ns. round_robin nodes tasks = Inr (as, ns) \<and> each_task_once nodes tasks as) \<and>
         (\<exists>as ns. shortest_job_first nodes tasks = Inr (as, ns) \<and> each_task_once nodes tasks as) \<and>
         (\<exists>as ns. economic nodes tasks = Inr (as, ns) \<and> each_task_once nodes tasks as) \<and>
         (\<exists>as ns g'. predictive_qos nodes tasks g = Inr (as, ns, g') \<and> each_task_once nodes tasks as)"
proof (intro conjI)
  have n: "0 < length nodes" using assms by simp
  from round_robin_index [OF assms, of tasks] obtain as ns where
    run: "round_robin nodes tasks = Inr (as, ns)" and
    ix: "length as = length tasks"
      "\<forall>i < length tasks. as ! i = (task_id (tasks ! i), node_id (nodes ! (i mod length nodes)))"
    by blast
  from index_form_fst [OF ix n refl] have "each_task_once nodes tasks as"
    by (intro each_task_onceI [where ts = tasks]) simp_all
  with run show "\<exists>as ns. round_robin nodes tasks = Inr (as, ns) \<and> each_task_once nodes tasks as"
    by blast
next
  have n: "0 < length nodes" using assms by simp
  from assign_loop_sorted [OF assms, of Load "sort_key Workload tasks"] obtain as ns where
    run: "assign_loop (sorted_refs Load nodes) 0 (sort_key Workload tasks) nodes [] = Inr (as, ns)" and
    ix: "length as = length (sort_key Workload tasks)"
      "\<forall>i < length (sort_key Workload tasks).
         as ! i = (task_id (sort_key Workload tasks ! i), node_id (sort_key Load nodes ! (i mod length nodes)))"
    by blast
  have len: "length nodes = length (sort_key Load nodes)" by simp
  from index_form_fst [OF ix n len] have "each_task_once nodes tasks as"
    by (intro each_task_onceI [where ts = "sort_key Workload tasks"]) simp_all
  with run show "\<exists>as ns. shortest_job_first nodes tasks = Inr (as, ns) \<and> each_task_once nodes tasks as"
    by (auto simp: shortest_job_first_def)
next
  have n: "0 < length nodes" using assms by simp
  from assign_loop_sorted [OF assms, of Cost tasks] obtain as ns where
    run: "assign_loop (sorted_refs Cost nodes) 0 tasks nodes [] = Inr (as, ns)" and
    ix: "length as = length tasks"
      "\<forall>i < length tasks.
         as ! i = (task_id (tasks ! i), node_id (sort_key Cost nodes ! (i mod length nodes)))"
    by blast
  have len: "length nodes = length (sort_key Cost nodes)" by simp
  from index_form_fst [OF ix n len] have "each_task_once nodes tasks as"
    by (intro each_task_onceI [where ts = tasks]) simp_all
  with run show "\<exists>as ns. economic nodes tasks = Inr (as, ns) \<and> each_task_once nodes tasks as"
    by (auto simp: economic_def)
next
  from predictive_qos_total [OF assms, of tasks g] obtain as ns g' where
    run: "predictive_qos nodes tasks g = Inr (as, ns, g')" and
    p: "map fst as = map task_id tasks" "snd ` set as \<subseteq> node_id ` set nodes"
    by blast
  from p have "each_task_once nodes tasks as"
    by (intro each_task_onceI [where ts = tasks]) simp_all
  with run show "\<exists>as ns g'. predictive_qos nodes tasks g = Inr (as, ns, g') \<and> each_task_once nodes tasks as"
    by blast
qed

theorem every_task_assigned_once_witness:
  "ex_pool \<noteq> [] \<and> distinct (map task_id ex_jobs) \<and>
   (\<exists>as ns. round_robin ex_pool ex_jobs = Inr (as, ns) \<and> each_task_once ex_pool ex_jobs as \<and>
      list_all (\<lambda>t. count_list (map fst as) (task_id t) = 1) ex_jobs) \<and>
   (\<exists>as ns. shortest_job_first ex_pool ex_jobs = Inr (as, ns) \<and> each_task_once ex_pool ex_jobs as \<and>
      list_all (\<lambda>t. count_list (map fst as) (task_id t) = 1) ex_jobs) \<and>
   (\<exists>as ns. economic ex_pool ex_jobs = Inr (as, ns) \<and> each_task_once ex_pool ex_jobs as \<and>
      list_all (\<lambda>t. count_list (map fst as) (task_id t) = 1) ex_jobs) \<and>
   (\<exists>as ns g'. predictive_qos ex_pool ex_jobs (\<lambda>i. i) = Inr (as, ns, g') \<and>
      each_task_once ex_pool ex_jobs as \<and>
      list_all (\<lambda>t. count_list (map fst as) (task_id t) = 1) ex_jobs)"
proof -
  have d: "distinct (map task_id ex_jobs)" by (simp add: ex_jobs_ids)
  have once: "list_all (\<lambda>t. count_list (map fst as) (task_id t) = 1) ex_jobs"
    if "each_task_once ex_pool ex_jobs as" for as
    using that d unfolding each_task_once_def list_all_iff by blast
  from every_task_assigned_once [OF ex_pool_facts(1), of ex_jobs "\<lambda>i. i"] once d ex_pool_facts(1)
  show ?thesis by blast
qed


subsection \<open>The node-state invariant\<close>

lemma node_in_range_inv: "node_in_range nd \<Longrightarrow> node_inv nd"
  by (simp add: node_in_range_def node_inv_def)

lemma inv_kept_refl: "\<forall>x \<in> set nodes. node_inv x \<Longrightarrow> inv_kept nodes nodes"
  by (simp add: inv_kept_def)

lemma inv_kept_trans: "inv_kept a b \<Longrightarrow> inv_kept b c \<Longrightarrow> inv_kept a c"
  unfolding inv_kept_def by (metis order_trans)

lemma add_load_inv_kept:
  assumes "\<forall>x \<in> set nodes. node_inv x" "0 \<le> w"
  shows "inv_kept nodes (add_load nodes j w)"
proof -
  have "node_inv x" if "x \<in> set (add_load nodes j w)" for x
  proof (cases "j < length nodes")
    case True
    from that have "x = (nodes ! j)\<lparr>Load := Load (nodes ! j) + w\<rparr> \<or> x \<in> set nodes"
      unfolding add_load_def using set_update_subset_insert by fastforce
    moreover have "node_inv (nodes ! j)" using True assms(1) by simp
    then have "node_inv ((nodes ! j)\<lparr>Load := Load (nodes ! j) + w\<rparr>)"
      using assms(2) by (simp add: node_inv_def)
    ultimately show ?thesis using assms(1) by auto
  next
    case False
    with that assms(1) show ?thesis by (simp add: add_load_def list_update_beyond)
  qed
  moreover have "Load (nodes ! k) \<le> Load (add_load nodes j w ! k)" if "k < length nodes" for k
    using that assms(2) by (simp add: nth_add_load)
  ultimately show ?thesis by (simp add: inv_kept_def)
qed

lemma perturbed_inv:
  assumes "perturbed nd nd'" "0 \<le> Load nd"
  shows "node_inv nd'" "Load nd' = Load nd"
proof -
  from assms(1) obtain dc db dr where
    "nd' = nd\<lparr>CPU := max 1 (CPU nd + dc),
                Bandwidth := max 10 (Bandwidth nd + db),
                Reliability := max (7 / 10) (min (99 / 100) (Reliability nd + dr))\<rparr>"
    unfolding perturbed_def by blast
  moreover have "7 / 10 \<le> max (7 / 10) (min (99 / 100) (Reliability nd + dr))"
    "max (7 / 10) (min (99 / 100) (Reliability nd + dr)) \<le> 99 / 100"
    by (simp_all add: max_def min_def)
  ultimately show "Load nd' = Load nd" "node_inv nd'"
    using assms(2) unfolding node_inv_def by (simp_all del: max_less_iff_conj)
qed

lemma perturb_all_inv_kept:
  assumes "\<forall>x \<in> set nodes. node_inv x"
  shows "inv_kept nodes (fst (perturb_all nodes g))"
proof -
  let ?ns = "fst (perturb_all nodes g)"
  have l2: "list_all2 perturbed nodes ?ns" by (rule perturb_all_perturbed)
  then have len: "length ?ns = length nodes" by (simp add: list_all2_lengthD)
  have each: "node_inv (?ns ! k) \<and> Load (?ns ! k) = Load (nodes ! k)" if "k < length nodes" for k
  proof -
    have "perturbed (nodes ! k) (?ns ! k)" using l2 that by (simp add: list_all2_conv_all_nth)
    moreover have "0 \<le> Load (nodes ! k)" using assms that by (simp add: node_inv_def)
    ultimately show ?thesis using perturbed_inv by blast
  qed
  have "node_inv x" if "x \<in> set ?ns" for x
    using that each len by (auto simp: in_set_conv_nth)
  with len each show ?thesis by (simp add: inv_kept_def)
qed

lemma inv_kept_all: "inv_kept nodes ns \<Longrightarrow> \<forall>x \<in> set ns. node_inv x"
  by (simp add: inv_kept_def)

lemma assign_loop_inv_kept:
  assumes "assign_loop refs i ts nodes acc = Inr (as, ns)"
    "\<forall>x \<in> set nodes. node_inv x" "\<forall>t \<in> set ts. 0 \<le> Workload t"
  shows "inv_kept nodes ns"
  using assms
proof (induction ts arbitrary: i nodes acc)
  case Nil
  then show ?case by (simp add: inv_kept_refl)
next
  case (Cons t ts)
  let ?j = "refs ! (i mod length nodes)"
  let ?nodes1 = "add_load nodes ?j (Workload t)"
  from Cons.prems(1) have run: "assign_loop refs (Suc i) ts ?nodes1
      (acc @ [(task_id t, node_id (?nodes1 ! ?j))]) = Inr (as, ns)"
    by (simp add: Let_def split: if_splits)
  have w: "0 \<le> Workload t" using Cons.prems(3) by simp
  have k1: "inv_kept nodes ?nodes1" using Cons.prems(2) w by (rule add_load_inv_kept)
  have "inv_kept ?nodes1 ns"
    using run inv_kept_all [OF k1] Cons.prems(3) by (intro Cons.IH) simp_all
  with k1 show ?case by (rule inv_kept_trans)
qed

lemma predictive_step_inv_kept:
  assumes "predictive_step t nodes g = Inr (a, nodes2, g1)"
    "\<forall>x \<in> set nodes. node_inv x" "0 \<le> Workload t"
  shows "inv_kept nodes nodes2"
proof -
  let ?nodes1 = "fst (perturb_all nodes g)"
  have k1: "inv_kept nodes ?nodes1" using assms(2) by (rule perturb_all_inv_kept)
  from assms(1) obtain j where "nodes2 = add_load ?nodes1 j (Workload t)"
    by (auto simp: predictive_step_def case_prod_beta Let_def split: list.splits)
  then have "inv_kept ?nodes1 nodes2"
    using add_load_inv_kept [OF inv_kept_all [OF k1] assms(3)] by simp
  with k1 show ?thesis by (rule inv_kept_trans)
qed

lemma predictive_loop_inv_kept:
  assumes "predictive_loop ts nodes g acc = Inr (as, ns, g')"
    "\<forall>x \<in> set nodes. node_inv x" "\<forall>t \<in> set ts. 0 \<le> Workload t"
  shows "inv_kept nodes ns"
  using assms
proof (induction ts arbitrary: nodes g acc)
  case Nil
  then show ?case by (simp add: inv_kept_refl)
next
  case (Cons t ts)
  from Cons.prems(1) obtain a nodes2 g1 where
    step: "predictive_step t nodes g = Inr (a, nodes2, g1)" and
    run: "predictive_loop ts nodes2 g1 (acc @ [a]) = Inr (as, ns, g')"
    by (auto split: sum.splits)
  have w: "0 \<le> Workload t" using Cons.prems(3) by simp
  have k1: "inv_kept nodes nodes2" using step Cons.prems(2) w by (rule predictive_step_inv_kept)
  have "inv_kept nodes2 ns"
    using run inv_kept_all [OF k1] Cons.prems(3) by (intro Cons.IH) simp_all
  with k1 show ?case by (rule inv_kept_trans)
qed

lemma create_nodes_inv: "\<forall>nd \<in> set (fst (create_nodes n g)). node_inv nd"
proof
  fix x assume "x \<in> set (fst (create_nodes n g))"
  then obtain j k where "x = fst (make_node j k)"
    unfolding create_nodes_def by (blast dest: create_nodes_from_made)
  then have "node_in_range x"
    using make_node_fields [of j k] by (simp add: node_in_range_def)
  then show "node_inv x" by (rule node_in_range_inv)
qed

text \<open>
  C9. Every generated node satisfies the node-state invariant (Load at least 0,
  Reliability in [0.70, 0.99], CPU at least 1, Bandwidth at least 10). Each of the two
  mutations a scheduler performs keeps it: the fluctuation of a node (which leaves the
  load as it is) and the addition of a positive workload to a node's load (which lowers
  no load). Hence, from nodes that satisfy the invariant and tasks with positive
  workloads, every run of each of the four strategies that returns ends with nodes that
  satisfy the invariant and whose loads have not decreased.
\<close>

theorem node_invariant_preserved:
  "(\<forall>nd \<in> set (fst (create_nodes n g)). node_inv nd) \<and>
   (node_inv nd \<longrightarrow> node_inv (fst (perturb nd h)) \<and> Load (fst (perturb nd h)) = Load nd) \<and>
   ((\<forall>x \<in> set nodes. node_inv x) \<and> 0 < w \<longrightarrow> inv_kept nodes (add_load nodes j w)) \<and>
   ((\<forall>x \<in> set nodes. node_inv x) \<and> (\<forall>t \<in> set tasks. 0 < Workload t) \<longrightarrow>
      (\<forall>as ns. round_robin nodes tasks = Inr (as, ns) \<longrightarrow> inv_kept nodes ns) \<and>
      (\<forall>as ns. shortest_job_first nodes tasks = Inr (as, ns) \<longrightarrow> inv_kept nodes ns) \<and>
      (\<forall>as ns. economic nodes tasks = Inr (as, ns) \<longrightarrow> inv_kept nodes ns) \<and>
      (\<forall>as ns g'. predictive_qos nodes tasks h = Inr (as, ns, g') \<longrightarrow> inv_kept nodes ns))"
proof (intro conjI impI allI)
  show "\<forall>nd \<in> set (fst (create_nodes n g)). node_inv nd" by (rule create_nodes_inv)
next
  assume i: "node_inv nd"
  then have "0 \<le> Load nd" by (simp add: node_inv_def)
  with perturb_perturbed [of nd h]
  show "node_inv (fst (perturb nd h))" "Load (fst (perturb nd h)) = Load nd"
    by (rule perturbed_inv)+
next
  assume "(\<forall>x \<in> set nodes. node_inv x) \<and> 0 < w"
  then show "inv_kept nodes (add_load nodes j w)" by (intro add_load_inv_kept) simp_all
next
  fix as ns
  assume h: "(\<forall>x \<in> set nodes. node_inv x) \<and> (\<forall>t \<in> set tasks. 0 < Workload t)"
  assume "round_robin nodes tasks = Inr (as, ns)"
  then have "assign_loop [0..<length nodes] 0 tasks nodes [] = Inr (as, ns)"
    by (simp add: round_robin_def)
  then show "inv_kept nodes ns"
    by (rule assign_loop_inv_kept) (use h in \<open>simp_all add: less_imp_le\<close>)
next
  fix as ns
  assume h: "(\<forall>x \<in> set nodes. node_inv x) \<and> (\<forall>t \<in> set tasks. 0 < Workload t)"
  assume "shortest_job_first nodes tasks = Inr (as, ns)"
  then have "assign_loop (sorted_refs Load nodes) 0 (sort_key Workload tasks) nodes [] = Inr (as, ns)"
    by (simp add: shortest_job_first_def)
  then show "inv_kept nodes ns"
    by (rule assign_loop_inv_kept) (use h in \<open>simp_all add: less_imp_le\<close>)
next
  fix as ns
  assume h: "(\<forall>x \<in> set nodes. node_inv x) \<and> (\<forall>t \<in> set tasks. 0 < Workload t)"
  assume "economic nodes tasks = Inr (as, ns)"
  then have "assign_loop (sorted_refs Cost nodes) 0 tasks nodes [] = Inr (as, ns)"
    by (simp add: economic_def)
  then show "inv_kept nodes ns"
    by (rule assign_loop_inv_kept) (use h in \<open>simp_all add: less_imp_le\<close>)
next
  fix as ns g'
  assume h: "(\<forall>x \<in> set nodes. node_inv x) \<and> (\<forall>t \<in> set tasks. 0 < Workload t)"
  assume "predictive_qos nodes tasks h = Inr (as, ns, g')"
  then have "predictive_loop tasks nodes h [] = Inr (as, ns, g')"
    by (simp add: predictive_qos_def)
  then show "inv_kept nodes ns"
    by (rule predictive_loop_inv_kept) (use h in \<open>simp_all add: less_imp_le\<close>)
qed

theorem node_invariant_preserved_witness:
  "list_all node_inv (fst (create_nodes 3 (\<lambda>i. i))) \<and>
   node_inv (ex_node 5) \<and> node_inv (fst (perturb (ex_node 5) (\<lambda>i. i))) \<and>
   list_all node_inv ex_pool \<and> list_all (\<lambda>t. 0 < Workload t) ex_jobs \<and>
   inv_kept ex_pool (add_load ex_pool 1 5) \<and>
   (\<exists>as ns. round_robin ex_pool ex_jobs = Inr (as, ns) \<and> inv_kept ex_pool ns) \<and>
   (\<exists>as ns. shortest_job_first ex_pool ex_jobs = Inr (as, ns) \<and> inv_kept ex_pool ns) \<and>
   (\<exists>as ns. economic ex_pool ex_jobs = Inr (as, ns) \<and> inv_kept ex_pool ns) \<and>
   (\<exists>as ns g'. predictive_qos ex_pool ex_jobs (\<lambda>i. i) = Inr (as, ns, g') \<and> inv_kept ex_pool ns)"
proof -
  note inst = node_invariant_preserved [where n = 3 and g = "\<lambda>i. i" and nd = "ex_node 5"
      and h = "\<lambda>i. i" and nodes = ex_pool and w = 5 and j = 1 and tasks = ex_jobs]
  have a: "node_inv (ex_node 5)" by (simp add: node_inv_def ex_node_def)
  have b: "\<forall>x \<in> set ex_pool. node_inv x" by (simp add: ex_pool_def ex_node2_def node_inv_def)
  have c: "\<forall>t \<in> set ex_jobs. 0 < Workload t" by (simp add: ex_jobs_def ex_task2_def)
  have w: "(0::int) < 5" by simp
  from round_robin_index [OF ex_pool_facts(1), of ex_jobs] obtain as1 ns1 where
    r1: "round_robin ex_pool ex_jobs = Inr (as1, ns1)" by blast
  from assign_loop_sorted [OF ex_pool_facts(1), of Load "sort_key Workload ex_jobs"] obtain as2 ns2 where
    r2: "shortest_job_first ex_pool ex_jobs = Inr (as2, ns2)"
    by (auto simp: shortest_job_first_def)
  from assign_loop_sorted [OF ex_pool_facts(1), of Cost ex_jobs] obtain as3 ns3 where
    r3: "economic ex_pool ex_jobs = Inr (as3, ns3)"
    by (auto simp: economic_def)
  from predictive_qos_total [OF ex_pool_facts(1), of ex_jobs "\<lambda>i. i"] obtain as4 ns4 g4 where
    r4: "predictive_qos ex_pool ex_jobs (\<lambda>i. i) = Inr (as4, ns4, g4)" by blast
  from inst a b c w r1 r2 r3 r4 show ?thesis
    unfolding list_all_iff by blast
qed


end
